theory Spec2Isabelle
  imports Main "HOL-Library.Word" "HOL-Library.Sublist"
begin

section \<open>Hand-over-hand locking on a linked list of strings\<close>

text \<open>
  The program keeps a singly-linked list of strings behind a sentinel node. Every node
  owns a reader-writer lock (\<^verbatim>\<open>verbose_mutex\<close>, a \<^verbatim>\<open>std::shared_mutex\<close> with a serial
  number). \<^verbatim>\<open>lookup\<close> walks from the sentinel to the n-th node with shared locks, taken
  hand over hand, and returns the node with its lock held exclusively in the caller's
  \<^verbatim>\<open>std::unique_lock\<close>.

  The embedding is sequential: it follows one call of \<^verbatim>\<open>lookup\<close> through a program
  state in which other holders may already own locks. A lock operation that would have
  to wait for another holder ends the run with the outcome \<open>Blocked\<close>.
\<close>

subsection \<open>Data\<close>

text \<open>
  \<^verbatim>\<open>class verbose_mutex\<close>: the \<^verbatim>\<open>std::shared_mutex m\<close> is its number of shared holders
  and whether it has an exclusive holder; \<^verbatim>\<open>serial_num\<close> is an \<^verbatim>\<open>unsigned int\<close>.
\<close>

record verbose_mutex =
  readers :: nat
  writer :: bool
  serial_num :: "32 word"

text \<open>\<^verbatim>\<open>struct node\<close>. A pointer is an index into the heap, \<^verbatim>\<open>nullptr\<close> is \<open>None\<close>.\<close>

record node =
  mutex :: verbose_mutex
  element :: string
  "next" :: "nat option"

text \<open>
  The events of one run, in program order: the four lock transitions that
  \<^verbatim>\<open>verbose_mutex\<close> reports, each recorded when the transition happens, and the reads of
  a node's \<^verbatim>\<open>next\<close> field. The argument is the address of the node.
\<close>

datatype event =
    Shared_acquire nat
  | Shared_release nat
  | Exclusive_acquire nat
  | Exclusive_release nat
  | Read_next nat

text \<open>
  The program state: the static counter \<^verbatim>\<open>verbose_mutex::number\<close>, the nodes allocated
  so far, the global \<^verbatim>\<open>list\<close> (pointer to the sentinel) and the events so far.
\<close>

record state =
  number :: "32 word"
  heap :: "node list"
  list_ptr :: "nat option"
  trace :: "event list"

text \<open>
  \<^verbatim>\<open>std::unique_lock<verbose_mutex>\<close> and \<^verbatim>\<open>std::shared_lock<verbose_mutex>\<close>: the
  associated mutex, if any, and whether the guard owns it.
\<close>

record guard =
  pm :: "nat option"
  owns :: bool

text \<open>The three \<^verbatim>\<open>std::runtime_error\<close>s of \<^verbatim>\<open>lookup\<close>, under the names of the specification.\<close>

datatype error = EmptyChain | InvalidIndex | IndexOutOfRange

fun what :: "error \<Rightarrow> string" where
  "what EmptyChain = ''lookup: list is empty''"
| "what InvalidIndex = ''lookup: invalid argument''"
| "what IndexOutOfRange = ''lookup: list too short''"

text \<open>
  How a call ends: it returns a node, throws, waits for a lock another holder owns, or
  dereferences a pointer that is null or outside the heap (\<open>Fault\<close>).
\<close>

datatype outcome = Returned nat | Threw error | Blocked | Fault

datatype 'a res = Done 'a | Wait | Undef

subsection \<open>The lock\<close>

definition log :: "event \<Rightarrow> state \<Rightarrow> state" where
  "log e s = s\<lparr>trace := trace s @ [e]\<rparr>"

definition set_mutex :: "nat \<Rightarrow> verbose_mutex \<Rightarrow> state \<Rightarrow> state" where
  "set_mutex a mx s = s\<lparr>heap := (heap s)[a := (heap s ! a)\<lparr>mutex := mx\<rparr>]\<rparr>"

text \<open>
  \<^verbatim>\<open>verbose_mutex::verbose_mutex()\<close>: \<^verbatim>\<open>serial_num = number++\<close> on an \<^verbatim>\<open>unsigned int\<close>.
\<close>

definition verbose_mutex_ctor :: "state \<Rightarrow> verbose_mutex \<times> state" where
  "verbose_mutex_ctor s =
     (\<lparr>readers = 0, writer = False, serial_num = number s\<rparr>, s\<lparr>number := number s + 1\<rparr>)"

text \<open>
  \<^verbatim>\<open>lock_shared\<close> waits while there is an exclusive holder; \<^verbatim>\<open>lock\<close> waits while there is
  any holder.
\<close>

definition lock_shared :: "nat \<Rightarrow> state \<Rightarrow> state res" where
  "lock_shared a s =
     (if a < length (heap s) then
        let mx = mutex (heap s ! a) in
        if writer mx then Wait
        else Done (log (Shared_acquire a) (set_mutex a (mx\<lparr>readers := readers mx + 1\<rparr>) s))
      else Undef)"

definition lock :: "nat \<Rightarrow> state \<Rightarrow> state res" where
  "lock a s =
     (if a < length (heap s) then
        let mx = mutex (heap s ! a) in
        if writer mx \<or> 0 < readers mx then Wait
        else Done (log (Exclusive_acquire a) (set_mutex a (mx\<lparr>writer := True\<rparr>) s))
      else Undef)"

text \<open>
  The two releases. Releasing a mutex that is not held in that mode is undefined in C++;
  \<^verbatim>\<open>lookup\<close> releases only through the destructor of a guard that owns the mutex, and
  \<open>lookup_releases_held\<close> below proves that every release of a call is of a lock the call
  holds, so the count of shared holders is positive when it is decremented.
\<close>

definition unlock_shared :: "nat \<Rightarrow> state \<Rightarrow> state" where
  "unlock_shared a s =
     (let mx = mutex (heap s ! a)
      in log (Shared_release a) (set_mutex a (mx\<lparr>readers := readers mx - 1\<rparr>) s))"

definition unlock :: "nat \<Rightarrow> state \<Rightarrow> state" where
  "unlock a s =
     (let mx = mutex (heap s ! a)
      in log (Exclusive_release a) (set_mutex a (mx\<lparr>writer := False\<rparr>) s))"

text \<open>The destructors of the two guards: release the mutex if the guard owns it.\<close>

definition shared_lock_dtor :: "guard \<Rightarrow> state \<Rightarrow> state" where
  "shared_lock_dtor g s =
     (case pm g of Some a \<Rightarrow> if owns g then unlock_shared a s else s | None \<Rightarrow> s)"

definition unique_lock_dtor :: "guard \<Rightarrow> state \<Rightarrow> state" where
  "unique_lock_dtor g s =
     (case pm g of Some a \<Rightarrow> if owns g then unlock a s else s | None \<Rightarrow> s)"

text \<open>
  Reading \<^verbatim>\<open>p->next\<close>. \<^verbatim>\<open>lookup\<close> reads it only after \<open>lock_shared p\<close> has succeeded, which
  has checked that \<open>p\<close> is inside the heap.
\<close>

definition read_next :: "nat \<Rightarrow> state \<Rightarrow> nat option \<times> state" where
  "read_next p s = (next (heap s ! p), log (Read_next p) s)"

subsection \<open>Building the list\<close>

text \<open>\<^verbatim>\<open>new node(_elt)\<close>: the mutex member is constructed, \<^verbatim>\<open>next\<close> is null.\<close>

definition new_node :: "string \<Rightarrow> state \<Rightarrow> nat \<times> state" where
  "new_node elt s =
     (let (mx, s1) = verbose_mutex_ctor s
      in (length (heap s1),
          s1\<lparr>heap := heap s1 @ [\<lparr>mutex = mx, element = elt, next = None\<rparr>]\<rparr>))"

text \<open>
  The loop of \<^verbatim>\<open>list_add\<close> that finds the last node. It runs forever on a cyclic list,
  which is the value \<open>None\<close>; \<open>Some None\<close> is a dereference outside the heap.
\<close>

partial_function (option) find_last :: "node list \<Rightarrow> nat \<Rightarrow> nat option option" where
  "find_last h insert_point =
     (if insert_point < length h then
        (case next (h ! insert_point) of
           None \<Rightarrow> Some (Some insert_point)
         | Some q \<Rightarrow> find_last h q)
      else Some None)"

declare find_last.simps [code]

text \<open>\<^verbatim>\<open>list_add\<close>; \<open>None\<close> when the call does not return normally.\<close>

definition list_add :: "string \<Rightarrow> state \<Rightarrow> state option" where
  "list_add s0 s =
     (let (new_node, s1) = new_node s0 s in
      case list_ptr s1 of
        None \<Rightarrow> None
      | Some l \<Rightarrow>
         (case find_last (heap s1) l of
            Some (Some insert_point) \<Rightarrow>
              Some (s1\<lparr>heap := (heap s1)[insert_point :=
                                 (heap s1 ! insert_point)\<lparr>next := Some new_node\<rparr>]\<rparr>)
          | _ \<Rightarrow> None))"

fun add_all :: "string list \<Rightarrow> state \<Rightarrow> state option" where
  "add_all [] s = Some s"
| "add_all (v # vs) s = (case list_add v s of None \<Rightarrow> None | Some s1 \<Rightarrow> add_all vs s1)"

text \<open>
  \<^verbatim>\<open>ss >> s\<close> on the \<^verbatim>\<open>istringstream\<close>: the words between white space. The first argument
  is the word read so far.
\<close>

definition isspace :: "char \<Rightarrow> bool" where
  "isspace c = (c \<in> set [CHR '' '', CHR 0x09, CHR 0x0A, CHR 0x0B, CHR 0x0C, CHR 0x0D])"

fun read_words :: "string \<Rightarrow> string \<Rightarrow> string list" where
  "read_words w [] = (if w = [] then [] else [w])"
| "read_words w (c # cs) =
     (if isspace c then (if w = [] then read_words [] cs else w # read_words [] cs)
      else read_words (w @ [c]) cs)"

definition contents :: string where
  "contents = ''The quick brown fox jumped over the lazy dog''"

definition populate_list :: "state \<Rightarrow> state option" where
  "populate_list s = add_all (read_words [] contents) s"

text \<open>
  The start of the program (counter zero, nothing allocated, \<^verbatim>\<open>list\<close> null) and the first
  statement of \<^verbatim>\<open>main\<close>, \<^verbatim>\<open>list = new node("")\<close>.
\<close>

definition init :: state where
  "init = \<lparr>number = 0, heap = [], list_ptr = None, trace = []\<rparr>"

definition new_list :: "state \<Rightarrow> state" where
  "new_list s = (let (p, s1) = new_node [] s in s1\<lparr>list_ptr := Some p\<rparr>)"

text \<open>The chain built by appending the payloads in order to a new list.\<close>

definition chain :: "string list \<Rightarrow> state option" where
  "chain vs = add_all vs (new_list init)"

subsection \<open>Lookup\<close>

text \<open>
  The loop \<^verbatim>\<open>while (--n) { ... }\<close> of \<^verbatim>\<open>lookup\<close>. It ends with \<open>Inr\<close> of the guard
  \<^verbatim>\<open>read_lock\<close> and the pointer \<^verbatim>\<open>result\<close> when the counter reaches zero, and with \<open>Inl\<close>
  when the run stops inside the loop. On the throw, \<^verbatim>\<open>next_lock\<close> and then \<^verbatim>\<open>read_lock\<close>
  go out of scope.
\<close>

function walk :: "32 word \<Rightarrow> guard \<Rightarrow> nat \<Rightarrow> state \<Rightarrow> (outcome + guard \<times> nat) \<times> state" where
  "walk n read_lock result s =
     (if n - 1 = 0 then (Inr (read_lock, result), s)
      else
        (case lock_shared result s of
           Undef \<Rightarrow> (Inl Fault, s)
         | Wait \<Rightarrow> (Inl Blocked, s)
         | Done s1 \<Rightarrow>
            let next_lock = \<lparr>pm = Some result, owns = True\<rparr>;
                (read_lock', next_lock') = (next_lock, read_lock);
                (result', s2) = read_next result s1
            in (case result' of
                  None \<Rightarrow>
                    (Inl (Threw IndexOutOfRange),
                     shared_lock_dtor read_lock' (shared_lock_dtor next_lock' s2))
                | Some r \<Rightarrow> walk (n - 1) read_lock' r (shared_lock_dtor next_lock' s2))))"
  by pat_completeness auto
termination
proof (relation "measure (\<lambda>(n, g, r, s). unat (n - 1))")
  show "wf (measure (\<lambda>(n, g, r, s). unat (n - 1)))"
    by simp
next
  fix n :: "32 word" and read_lock result s x y ya x2
  assume h: "n - 1 \<noteq> 0"
  have "unat (n - 1 - 1) = unat (n - 1) - 1"
    using unat_minus_one [OF h] .
  moreover have "unat (n - 1) \<noteq> 0"
    using h by (simp add: unat_eq_0)
  moreover have "n - 1 - 1 = n - 2"
    by simp
  ultimately have "unat (n - 2) < unat (n - 1)"
    by simp
  then show "((n - 1, x, x2, shared_lock_dtor y ya), n, read_lock, result, s)
               \<in> measure (\<lambda>(n, g, r, s). unat (n - 1))"
    by simp
qed

text \<open>
  \<^verbatim>\<open>lookup(n, lock)\<close>: the outcome, the caller's guard and the state after the call.
\<close>

definition lookup :: "32 word \<Rightarrow> guard \<Rightarrow> state \<Rightarrow> outcome \<times> guard \<times> state" where
  "lookup n lock_arg s =
     (case list_ptr s of
        None \<Rightarrow> (Fault, lock_arg, s)
      | Some sentinel \<Rightarrow>
         (case lock_shared sentinel s of
            Undef \<Rightarrow> (Fault, lock_arg, s)
          | Wait \<Rightarrow> (Blocked, lock_arg, s)
          | Done s1 \<Rightarrow>
             let read_lock = \<lparr>pm = Some sentinel, owns = True\<rparr>;
                 (result, s2) = read_next sentinel s1
             in (case result of
                   None \<Rightarrow> (Threw EmptyChain, lock_arg, shared_lock_dtor read_lock s2)
                 | Some r \<Rightarrow>
                    if n = 0 \<or> owns lock_arg
                    then (Threw InvalidIndex, lock_arg, shared_lock_dtor read_lock s2)
                    else
                      (case walk n read_lock r s2 of
                         (Inl stop, s3) \<Rightarrow> (stop, lock_arg, s3)
                       | (Inr (read_lock, result), s3) \<Rightarrow>
                          (case lock result s3 of
                             Undef \<Rightarrow> (Fault, lock_arg, s3)
                           | Wait \<Rightarrow> (Blocked, lock_arg, s3)
                           | Done s4 \<Rightarrow>
                              let result_lock = \<lparr>pm = Some result, owns = True\<rparr>;
                                  (lock_arg', result_lock') = (result_lock, lock_arg)
                              in (Returned result, lock_arg',
                                  shared_lock_dtor read_lock
                                    (unique_lock_dtor result_lock' s4)))))))"

subsection \<open>What a call leaves unchanged\<close>

text \<open>
  The structure of the list: the sentinel pointer, the counter, and for every node, in
  heap order, its serial number, its payload and its \<^verbatim>\<open>next\<close> link. It leaves out the
  state of the locks and the events.
\<close>

definition "structure" :: "state \<Rightarrow> nat option \<times> 32 word \<times> (32 word \<times> string \<times> nat option) list" where
  "structure s =
     (list_ptr s, number s, map (\<lambda>nd. (serial_num (mutex nd), element nd, next nd)) (heap s))"

text \<open>The three changes of a lock's state, on the heap.\<close>

definition add_reader :: "nat \<Rightarrow> node list \<Rightarrow> node list" where
  "add_reader a h = h[a := (h ! a)\<lparr>mutex := (mutex (h ! a))\<lparr>readers := readers (mutex (h ! a)) + 1\<rparr>\<rparr>]"

definition drop_reader :: "nat \<Rightarrow> node list \<Rightarrow> node list" where
  "drop_reader a h = h[a := (h ! a)\<lparr>mutex := (mutex (h ! a))\<lparr>readers := readers (mutex (h ! a)) - 1\<rparr>\<rparr>]"

definition set_writer :: "nat \<Rightarrow> node list \<Rightarrow> node list" where
  "set_writer a h = h[a := (h ! a)\<lparr>mutex := (mutex (h ! a))\<lparr>writer := True\<rparr>\<rparr>]"

subsection \<open>The locks a call holds\<close>

text \<open>
  The locks that the events of a call leave held, each with its mode: an acquisition adds
  the lock, a release removes one holding of it, a read changes nothing.
\<close>

datatype mode = Shared | Exclusive

fun held_step :: "(nat \<times> mode) list \<Rightarrow> event \<Rightarrow> (nat \<times> mode) list" where
  "held_step H (Shared_acquire a) = (a, Shared) # H"
| "held_step H (Shared_release a) = remove1 (a, Shared) H"
| "held_step H (Exclusive_acquire a) = (a, Exclusive) # H"
| "held_step H (Exclusive_release a) = remove1 (a, Exclusive) H"
| "held_step H (Read_next a) = H"

definition held :: "event list \<Rightarrow> (nat \<times> mode) list" where
  "held t = foldl held_step [] t"

text \<open>The events of one call of \<^verbatim>\<open>lookup\<close>: what the call adds to the events so far.\<close>

definition call_events :: "32 word \<Rightarrow> guard \<Rightarrow> state \<Rightarrow> event list" where
  "call_events n lock_arg s = drop (length (trace s)) (trace (snd (snd (lookup n lock_arg s))))"

text \<open>The node after \<open>p\<close> in the state \<open>s\<close>.\<close>

definition successor :: "state \<Rightarrow> nat \<Rightarrow> nat option" where
  "successor s p = (if p < length (heap s) then next (heap s ! p) else None)"

text \<open>
  Properties of the events \<open>t\<close> of a call. A prefix \<open>u\<close> of \<open>t\<close> is a moment of the call:
  the events so far, the last of them the one that has just happened.
  \<^item> \<open>at_most_two\<close>: at every moment the call holds at most two locks.
  \<^item> \<open>never_none\<close>: at every moment after the first event and before the last one the
    call holds a lock.
  \<^item> \<open>reads_locked\<close>: when a node's \<^verbatim>\<open>next\<close> has just been read, the call holds the lock
    of that node.
  \<^item> \<open>hand_over\<close>: when a shared lock has just been released, and this is not the last event
    of the call, the node has a successor whose shared lock the call holds.
\<close>

definition at_most_two :: "event list \<Rightarrow> bool" where
  "at_most_two t = (\<forall>u \<in> set (prefixes t). length (held u) \<le> 2)"

definition never_none :: "event list \<Rightarrow> bool" where
  "never_none t = (\<forall>u \<in> set (prefixes t). u \<noteq> [] \<and> u \<noteq> t \<longrightarrow> held u \<noteq> [])"

definition read_ok :: "event list \<Rightarrow> bool" where
  "read_ok u = (case last u of Read_next a \<Rightarrow> a \<in> fst ` set (held u) | _ \<Rightarrow> True)"

definition release_ok :: "(nat \<Rightarrow> nat option) \<Rightarrow> event list \<Rightarrow> bool" where
  "release_ok succ u =
     (case last u of
        Shared_release p \<Rightarrow>
          (case succ p of None \<Rightarrow> False | Some q \<Rightarrow> (q, Shared) \<in> set (held u))
      | _ \<Rightarrow> True)"

definition release_held :: "event list \<Rightarrow> bool" where
  "release_held u =
     (case last u of
        Shared_release a \<Rightarrow> (a, Shared) \<in> set (held (butlast u))
      | Exclusive_release a \<Rightarrow> (a, Exclusive) \<in> set (held (butlast u))
      | _ \<Rightarrow> True)"

definition reads_locked :: "event list \<Rightarrow> bool" where
  "reads_locked t = (\<forall>u \<in> set (prefixes t). u \<noteq> [] \<longrightarrow> read_ok u)"

definition hand_over :: "(nat \<Rightarrow> nat option) \<Rightarrow> event list \<Rightarrow> bool" where
  "hand_over succ t = (\<forall>u \<in> set (prefixes t). u \<noteq> [] \<and> u \<noteq> t \<longrightarrow> release_ok succ u)"

text \<open>
  \<open>releases_held\<close>: when a lock has just been released, the call held it in that mode. This
  is what \<open>unlock_shared\<close> and \<open>unlock\<close> rely on.
\<close>

definition releases_held :: "event list \<Rightarrow> bool" where
  "releases_held t = (\<forall>u \<in> set (prefixes t). u \<noteq> [] \<longrightarrow> release_held u)"

subsection \<open>The reference list\<close>

text \<open>The state that \<^verbatim>\<open>main\<close> has built when \<^verbatim>\<open>populate_list\<close> returns.\<close>

definition reference :: state where
  "reference = \<lparr>number = 10, heap = [
     \<lparr>mutex = \<lparr>readers = 0, writer = False, serial_num = 0\<rparr>, element = [], next = Some 1\<rparr>,
     \<lparr>mutex = \<lparr>readers = 0, writer = False, serial_num = 1\<rparr>, element = ''The'', next = Some 2\<rparr>,
     \<lparr>mutex = \<lparr>readers = 0, writer = False, serial_num = 2\<rparr>, element = ''quick'', next = Some 3\<rparr>,
     \<lparr>mutex = \<lparr>readers = 0, writer = False, serial_num = 3\<rparr>, element = ''brown'', next = Some 4\<rparr>,
     \<lparr>mutex = \<lparr>readers = 0, writer = False, serial_num = 4\<rparr>, element = ''fox'', next = Some 5\<rparr>,
     \<lparr>mutex = \<lparr>readers = 0, writer = False, serial_num = 5\<rparr>, element = ''jumped'', next = Some 6\<rparr>,
     \<lparr>mutex = \<lparr>readers = 0, writer = False, serial_num = 6\<rparr>, element = ''over'', next = Some 7\<rparr>,
     \<lparr>mutex = \<lparr>readers = 0, writer = False, serial_num = 7\<rparr>, element = ''the'', next = Some 8\<rparr>,
     \<lparr>mutex = \<lparr>readers = 0, writer = False, serial_num = 8\<rparr>, element = ''lazy'', next = Some 9\<rparr>,
     \<lparr>mutex = \<lparr>readers = 0, writer = False, serial_num = 9\<rparr>, element = ''dog'', next = None\<rparr>],
     list_ptr = Some 0, trace = []\<rparr>"

text \<open>A guard that is associated with no mutex, as \<^verbatim>\<open>main\<close> passes it.\<close>

definition no_lock :: guard where
  "no_lock = \<lparr>pm = None, owns = False\<rparr>"

subsection \<open>The demonstration\<close>

text \<open>
  \<^verbatim>\<open>main\<close>: build the list, look up node 6 and then node 4 while the lock of node 6 is
  still owned, drop both locks (in reverse order of declaration), look up node 9. The
  result is the payloads it prints, or \<open>None\<close> when it does not run to its end.
\<close>

definition main :: "string list option" where
  "main =
     (case populate_list (new_list init) of
        None \<Rightarrow> None
      | Some s \<Rightarrow>
         (case lookup 6 no_lock s of
            (Returned node_p1, node_lock1, s1) \<Rightarrow>
              (case lookup 4 no_lock s1 of
                 (Returned node_p2, node_lock2, s2) \<Rightarrow>
                   (case lookup 9 no_lock
                           (unique_lock_dtor node_lock1 (unique_lock_dtor node_lock2 s2)) of
                      (Returned node_ptr, node_lock, s3) \<Rightarrow>
                        Some [element (heap s1 ! node_p1), element (heap s2 ! node_p2),
                              element (heap s3 ! node_ptr)]
                    | _ \<Rightarrow> None)
               | _ \<Rightarrow> None)
          | _ \<Rightarrow> None))"

subsection \<open>Invariants of the proofs\<close>

text \<open>
  A moment \<open>u\<close> of a call that has not ended: one or two locks are held, and the last event
  is in order.
\<close>

definition prefix_ok :: "(nat \<Rightarrow> nat option) \<Rightarrow> event list \<Rightarrow> bool" where
  "prefix_ok succ u =
     (length (held u) \<le> 2 \<and>
      (u \<noteq> [] \<longrightarrow> held u \<noteq> [] \<and> read_ok u \<and> release_ok succ u \<and> release_held u))"

definition all_ok_from :: "(nat \<Rightarrow> nat option) \<Rightarrow> event list \<Rightarrow> event list \<Rightarrow> bool" where
  "all_ok_from succ b t = (\<forall>u \<in> set (prefixes t). prefix_ok succ (b @ u))"

definition final_ok :: "(nat \<Rightarrow> nat option) \<Rightarrow> event list \<Rightarrow> bool" where
  "final_ok sc t =
     (at_most_two t \<and> never_none t \<and> reads_locked t \<and> hand_over sc t \<and> releases_held t)"

text \<open>
  The loop head of \<^verbatim>\<open>lookup\<close>, for a call that started in \<open>s0\<close>: \<^verbatim>\<open>read_lock\<close> owns the
  shared lock of a node \<open>p\<close> whose successor is \<^verbatim>\<open>result\<close>, this is the only lock the call
  holds, and it is the only change to the heap.
\<close>

definition walking :: "state \<Rightarrow> guard \<Rightarrow> nat \<Rightarrow> state \<Rightarrow> bool" where
  "walking s0 g r s =
     (structure s = structure s0 \<and>
      (\<exists>p t. g = \<lparr>pm = Some p, owns = True\<rparr> \<and> successor s0 p = Some r \<and>
         heap s = add_reader p (heap s0) \<and>
         trace s = trace s0 @ t \<and> held t = [(p, Shared)] \<and> all_ok_from (successor s0) [] t))"

text \<open>The state in which a call stops, throws or returns the node \<open>r\<close>.\<close>

definition stopped :: "state \<Rightarrow> state \<Rightarrow> bool" where
  "stopped s0 s =
     (\<exists>t. trace s = trace s0 @ t \<and> held t \<noteq> [] \<and> final_ok (successor s0) t)"

definition thrown :: "state \<Rightarrow> state \<Rightarrow> bool" where
  "thrown s0 s =
     (heap s = heap s0 \<and>
      (\<exists>t. trace s = trace s0 @ t \<and> held t = [] \<and> final_ok (successor s0) t))"

definition returned :: "state \<Rightarrow> nat \<Rightarrow> state \<Rightarrow> bool" where
  "returned s0 r s =
     (heap s = set_writer r (heap s0) \<and>
      (\<exists>t. trace s = trace s0 @ t \<and> held t = [(r, Exclusive)] \<and> final_ok (successor s0) t))"

definition walked :: "state \<Rightarrow> (outcome + guard \<times> nat) \<times> state \<Rightarrow> bool" where
  "walked s0 x =
     (case x of (res, s') \<Rightarrow>
        (case res of
           Inr (g', r') \<Rightarrow> walking s0 g' r' s'
         | Inl (Threw e) \<Rightarrow> e = IndexOutOfRange \<and> thrown s0 s'
         | Inl (Returned x) \<Rightarrow> False
         | Inl stop \<Rightarrow> stopped s0 s'))"

definition looked :: "state \<Rightarrow> guard \<Rightarrow> outcome \<times> guard \<times> state \<Rightarrow> bool" where
  "looked s lock_arg x =
     (case x of (out, g', s') \<Rightarrow>
        (case out of
           Returned r \<Rightarrow> g' = \<lparr>pm = Some r, owns = True\<rparr> \<and> returned s r s'
         | Threw e \<Rightarrow> g' = lock_arg \<and> thrown s s'
         | _ \<Rightarrow> g' = lock_arg \<and> (\<exists>t. trace s' = trace s @ t \<and> final_ok (successor s) t)))"

subsection \<open>The built chain in closed form\<close>

text \<open>
  The state after appending the payloads \<open>vs\<close> to a new list: node \<open>0\<close> is the sentinel,
  node \<open>i\<close> carries the \<open>i\<close>-th payload and the serial number \<open>i\<close> (as an \<^verbatim>\<open>unsigned int\<close>),
  every node but the last points to the next address, and every lock is free.
\<close>

definition chain_node :: "string list \<Rightarrow> nat \<Rightarrow> node" where
  "chain_node vs i =
     \<lparr>mutex = \<lparr>readers = 0, writer = False, serial_num = of_nat i\<rparr>,
      element = ([] # vs) ! i,
      next = (if i < length vs then Some (Suc i) else None)\<rparr>"

definition chain_state :: "string list \<Rightarrow> state" where
  "chain_state vs =
     \<lparr>number = of_nat (Suc (length vs)),
      heap = map (chain_node vs) [0..<Suc (length vs)],
      list_ptr = Some 0,
      trace = []\<rparr>"

text \<open>
  The loop head on the built chain, for a call with the index \<open>N\<close>: the steps still to
  take lead from \<^verbatim>\<open>result\<close> to the node \<open>N\<close>.
\<close>

definition counting :: "string list \<Rightarrow> nat \<Rightarrow> 32 word \<Rightarrow> guard \<Rightarrow> nat \<Rightarrow> state \<Rightarrow> bool" where
  "counting vs N n g r s =
     (walking (chain_state vs) g r s \<and> r \<le> length vs \<and> 1 \<le> unat n \<and> r + unat n = Suc N)"

definition counted :: "string list \<Rightarrow> nat \<Rightarrow> (outcome + guard \<times> nat) \<times> state \<Rightarrow> bool" where
  "counted vs N x =
     (case x of (res, s') \<Rightarrow>
        (case res of
           Inr (g', r') \<Rightarrow> r' = N \<and> N \<le> length vs
         | Inl (Threw e) \<Rightarrow> length vs < N
         | Inl stop \<Rightarrow> False))"

subsection \<open>Locks constructed in sequence\<close>

text \<open>\<open>k\<close> calls of the constructor of \<^verbatim>\<open>verbose_mutex\<close>, one after the other.\<close>

fun construct :: "nat \<Rightarrow> state \<Rightarrow> verbose_mutex list \<times> state" where
  "construct 0 s = ([], s)"
| "construct (Suc k) s =
     (case verbose_mutex_ctor s of (mx, s1) \<Rightarrow>
        (case construct k s1 of (ms, s2) \<Rightarrow> (mx # ms, s2)))"

section \<open>Lemmas\<close>

subsection \<open>The loop\<close>

text \<open>
  The proof rule of the loop: an invariant \<open>I\<close> of the loop head that every iteration
  keeps, and a property \<open>Q\<close> of every way out of the loop.
\<close>

declare walk.simps [simp del]

lemma walk_rule:
  assumes init: "I n g r s"
    and leave: "\<And>n g r s. I n g r s \<Longrightarrow> n - 1 = 0 \<Longrightarrow> Q (Inr (g, r), s)"
    and undef: "\<And>n g r s. I n g r s \<Longrightarrow> n - 1 \<noteq> 0 \<Longrightarrow> lock_shared r s = Undef
                  \<Longrightarrow> Q (Inl Fault, s)"
    and wait: "\<And>n g r s. I n g r s \<Longrightarrow> n - 1 \<noteq> 0 \<Longrightarrow> lock_shared r s = Wait
                  \<Longrightarrow> Q (Inl Blocked, s)"
    and short: "\<And>n g r s s1. I n g r s \<Longrightarrow> n - 1 \<noteq> 0 \<Longrightarrow> lock_shared r s = Done s1
                  \<Longrightarrow> next (heap s1 ! r) = None
                  \<Longrightarrow> Q (Inl (Threw IndexOutOfRange),
                         shared_lock_dtor \<lparr>pm = Some r, owns = True\<rparr>
                           (shared_lock_dtor g (log (Read_next r) s1)))"
    and step: "\<And>n g r s s1 r'. I n g r s \<Longrightarrow> n - 1 \<noteq> 0 \<Longrightarrow> lock_shared r s = Done s1
                  \<Longrightarrow> next (heap s1 ! r) = Some r'
                  \<Longrightarrow> I (n - 1) \<lparr>pm = Some r, owns = True\<rparr> r'
                         (shared_lock_dtor g (log (Read_next r) s1))"
  shows "Q (walk n g r s)"
  using init
proof (induction n g r s rule: walk.induct)
  case (1 n g r s)
  show ?case
  proof (cases "n - 1 = 0")
    case True
    then have "walk n g r s = (Inr (g, r), s)"
      by (subst walk.simps) simp
    then show ?thesis
      using leave [OF "1.prems" True] by simp
  next
    case nz: False
    show ?thesis
    proof (cases "lock_shared r s")
      case Undef
      then show ?thesis
        using undef [OF "1.prems" nz] nz by (simp add: walk.simps [of n g r s])
    next
      case Wait
      then show ?thesis
        using wait [OF "1.prems" nz] nz by (simp add: walk.simps [of n g r s])
    next
      case (Done s1)
      show ?thesis
      proof (cases "next (heap s1 ! r)")
        case None
        then show ?thesis
          using short [OF "1.prems" nz Done] nz Done
          by (simp add: walk.simps [of n g r s] read_next_def)
      next
        case (Some r')
        have "I (n - 1) \<lparr>pm = Some r, owns = True\<rparr> r'
                (shared_lock_dtor g (log (Read_next r) s1))"
          using step [OF "1.prems" nz Done Some] .
        moreover have rn: "(Some r', log (Read_next r) s1) = read_next r s1"
          using Some by (simp add: read_next_def)
        ultimately have "Q (walk (n - 1) \<lparr>pm = Some r, owns = True\<rparr> r'
                (shared_lock_dtor g (log (Read_next r) s1)))"
          using "1.IH" [OF nz Done refl refl refl refl rn refl] by simp
        then show ?thesis
          using nz Done Some by (simp add: walk.simps [of n g r s] read_next_def)
      qed
    qed
  qed
qed


subsection \<open>The primitives\<close>

lemma lock_shared_Done:
  assumes "lock_shared a s = Done s1"
  shows "a < length (heap s)" and "\<not> writer (mutex (heap s ! a))"
    and "s1 = s\<lparr>heap := add_reader a (heap s), trace := trace s @ [Shared_acquire a]\<rparr>"
  using assms
  by (auto simp: lock_shared_def Let_def log_def set_mutex_def add_reader_def split: if_splits)

lemma lock_Done:
  assumes "lock a s = Done s1"
  shows "a < length (heap s)" and "\<not> writer (mutex (heap s ! a))"
    and "readers (mutex (heap s ! a)) = 0"
    and "s1 = s\<lparr>heap := set_writer a (heap s), trace := trace s @ [Exclusive_acquire a]\<rparr>"
  using assms
  by (auto simp: lock_def Let_def log_def set_mutex_def set_writer_def split: if_splits)

lemma unlock_shared_eq:
  "unlock_shared a s = s\<lparr>heap := drop_reader a (heap s), trace := trace s @ [Shared_release a]\<rparr>"
  by (simp add: unlock_shared_def Let_def log_def set_mutex_def drop_reader_def)

lemma shared_lock_dtor_owned [simp]:
  "shared_lock_dtor \<lparr>pm = Some a, owns = True\<rparr> s = unlock_shared a s"
  by (simp add: shared_lock_dtor_def)

lemma unique_lock_dtor_free [simp]: "\<not> owns g \<Longrightarrow> unique_lock_dtor g s = s"
  by (simp add: unique_lock_dtor_def split: option.splits)

lemma length_add_reader [simp]: "length (add_reader a h) = length h"
  by (simp add: add_reader_def)

lemma length_drop_reader [simp]: "length (drop_reader a h) = length h"
  by (simp add: drop_reader_def)

lemma length_set_writer [simp]: "length (set_writer a h) = length h"
  by (simp add: set_writer_def)

lemma drop_add_reader [simp]: "drop_reader a (add_reader a h) = h"
  by (cases "a < length h") (simp_all add: drop_reader_def add_reader_def list_update_beyond)

lemma add_reader_commute: "add_reader a (add_reader b h) = add_reader b (add_reader a h)"
  by (cases "a = b") (simp_all add: add_reader_def list_update_swap)

lemma drop_add_add_reader [simp]: "drop_reader p (add_reader r (add_reader p h)) = add_reader r h"
  by (simp add: add_reader_commute [of r p])

lemma drop_set_add_reader [simp]:
  "p \<noteq> r \<Longrightarrow> drop_reader p (set_writer r (add_reader p h)) = set_writer r h"
  by (cases "p < length h")
     (simp_all add: drop_reader_def set_writer_def add_reader_def list_update_swap
        list_update_beyond)

subsection \<open>The frame\<close>

lemma shape_update:
  assumes "serial_num (mutex x) = serial_num (mutex (h ! a))" "element x = element (h ! a)"
    "next x = next (h ! a)"
  shows "map (\<lambda>nd. (serial_num (mutex nd), element nd, next nd)) (h[a := x])
         = map (\<lambda>nd. (serial_num (mutex nd), element nd, next nd)) h"
  using assms
  by (cases "a < length h") (auto intro!: nth_equalityI simp: nth_list_update list_update_beyond)

lemma structure_log [simp]: "structure (log e s) = structure s"
  by (simp add: structure_def log_def)

lemma structure_lock_shared: "lock_shared a s = Done s1 \<Longrightarrow> structure s1 = structure s"
  by (auto simp: lock_shared_def Let_def log_def set_mutex_def structure_def shape_update
           split: if_splits)

lemma structure_lock: "lock a s = Done s1 \<Longrightarrow> structure s1 = structure s"
  by (auto simp: lock_def Let_def log_def set_mutex_def structure_def shape_update
           split: if_splits)

lemma structure_unlock_shared [simp]: "structure (unlock_shared a s) = structure s"
  by (simp add: unlock_shared_def Let_def log_def set_mutex_def structure_def shape_update)

lemma structure_unlock [simp]: "structure (unlock a s) = structure s"
  by (simp add: unlock_def Let_def log_def set_mutex_def structure_def shape_update)

lemma structure_shared_lock_dtor [simp]: "structure (shared_lock_dtor g s) = structure s"
  by (simp add: shared_lock_dtor_def split: option.splits)

lemma structure_unique_lock_dtor [simp]: "structure (unique_lock_dtor g s) = structure s"
  by (simp add: unique_lock_dtor_def split: option.splits)

lemma structure_walk: "structure (snd (walk n g r s)) = structure s"
proof -
  have "(\<lambda>(res, s'). structure s' = structure s) (walk n g r s)"
    by (rule walk_rule [where I = "\<lambda>n g r s'. structure s' = structure s"])
       (simp_all add: structure_lock_shared)
  then show ?thesis
    by (simp add: case_prod_unfold)
qed

subsection \<open>Events and held locks\<close>

lemma held_Nil [simp]: "held [] = []"
  by (simp add: held_def)

lemma held_append [simp]: "held (t @ u) = foldl held_step (held t) u"
  by (simp add: held_def)

lemma held_Cons [simp]: "held (e # t) = foldl held_step (held_step [] e) t"
  by (simp add: held_def)

lemma all_ok_from_Nil [simp]: "all_ok_from sc b [] = prefix_ok sc b"
  by (simp add: all_ok_from_def)

lemma all_ok_from_Cons [simp]:
  "all_ok_from sc b (e # u) = (prefix_ok sc b \<and> all_ok_from sc (b @ [e]) u)"
  by (simp add: all_ok_from_def)

lemma all_ok_from_append:
  "all_ok_from sc [] (t @ u) = (all_ok_from sc [] t \<and> all_ok_from sc t u)"
proof -
  have "set (prefixes (t @ u)) = set (prefixes t) \<union> (\<lambda>v. t @ v) ` set (prefixes u)"
    by (auto simp: in_set_prefixes prefix_append)
  then show ?thesis
    by (auto simp: all_ok_from_def)
qed

lemma all_ok_final: "all_ok_from sc [] t \<Longrightarrow> final_ok sc t"
  by (simp add: all_ok_from_def final_ok_def at_most_two_def never_none_def reads_locked_def
        hand_over_def releases_held_def prefix_ok_def)

lemma length_remove1_le: "length (remove1 x xs) \<le> length xs"
  by (induction xs) auto

lemma all_ok_final_release:
  assumes "all_ok_from sc [] t" and "(a, Shared) \<in> set (held t)"
  shows "final_ok sc (t @ [Shared_release a])"
proof -
  have p: "prefix_ok sc u" if "u \<in> set (prefixes t)" for u
    using assms that by (simp add: all_ok_from_def)
  have "length (held t) \<le> 2"
    using p [of t] by (simp add: prefix_ok_def in_set_prefixes)
  then have l: "length (held (t @ [Shared_release a])) \<le> 2"
    using length_remove1_le [of "(a, Shared)" "held t"] by simp
  have "at_most_two (t @ [Shared_release a])"
    unfolding at_most_two_def using p l by (auto simp: prefix_ok_def)
  moreover have "never_none (t @ [Shared_release a])"
    unfolding never_none_def using p by (auto simp: prefix_ok_def)
  moreover have "reads_locked (t @ [Shared_release a])"
    unfolding reads_locked_def using p by (auto simp: prefix_ok_def read_ok_def)
  moreover have "hand_over sc (t @ [Shared_release a])"
    unfolding hand_over_def using p by (auto simp: prefix_ok_def)
  moreover have "releases_held (t @ [Shared_release a])"
    unfolding releases_held_def using p assms(2) by (auto simp: prefix_ok_def release_held_def)
  ultimately show ?thesis
    by (simp add: final_ok_def)
qed

lemma all_ok_last: "all_ok_from sc [] t \<Longrightarrow> prefix_ok sc t"
  by (simp add: all_ok_from_def)

lemma structure_successor:
  assumes "structure s' = structure s"
  shows "successor s' = successor s"
proof
  fix p
  let ?f = "\<lambda>nd. (serial_num (mutex nd), element nd, next nd)"
  have m: "map ?f (heap s') = map ?f (heap s)"
    using assms by (simp add: structure_def)
  then have l: "length (heap s') = length (heap s)"
    using map_eq_imp_length_eq by blast
  show "successor s' p = successor s p"
  proof (cases "p < length (heap s)")
    case True
    then have "map ?f (heap s') ! p = map ?f (heap s) ! p"
      using m by simp
    then have "next (heap s' ! p) = next (heap s ! p)"
      using True l by simp
    then show ?thesis
      using True l by (simp add: successor_def)
  next
    case False
    then show ?thesis
      using l by (simp add: successor_def)
  qed
qed

lemma trace_log [simp]: "trace (log e s) = trace s @ [e]"
  by (simp add: log_def)

lemma heap_log [simp]: "heap (log e s) = heap s"
  by (simp add: log_def)

subsection \<open>The invariant of the walk\<close>

lemma walking_stopped: "walking s0 g r s \<Longrightarrow> stopped s0 s"
  by (auto simp: walking_def stopped_def all_ok_final)

lemma walking_step:
  assumes w: "walking s0 g r s" and l: "lock_shared r s = Done s1"
    and nx: "next (heap s1 ! r) = Some r'"
  shows "walking s0 \<lparr>pm = Some r, owns = True\<rparr> r' (shared_lock_dtor g (log (Read_next r) s1))"
proof -
  obtain p t where g: "g = \<lparr>pm = Some p, owns = True\<rparr>" and sp: "successor s0 p = Some r"
    and hp: "heap s = add_reader p (heap s0)"
    and tr: "trace s = trace s0 @ t" and h: "held t = [(p, Shared)]"
    and ok: "all_ok_from (successor s0) [] t" and st: "structure s = structure s0"
    using w by (auto simp: walking_def)
  let ?t = "t @ [Shared_acquire r, Read_next r, Shared_release p]"
  let ?s = "unlock_shared p (log (Read_next r) s1)"
  have st1: "structure s1 = structure s0"
    using structure_lock_shared [OF l] st by simp
  have "r < length (heap s1)"
    using lock_shared_Done [OF l] by simp
  then have "successor s1 r = Some r'"
    using nx by (simp add: successor_def)
  then have sr: "successor s0 r = Some r'"
    using structure_successor [OF st1] by simp
  have "all_ok_from (successor s0) [] ?t"
    using ok h sp all_ok_last [OF ok]
    by (simp add: all_ok_from_append prefix_ok_def read_ok_def release_ok_def release_held_def
          butlast_append)
  moreover have "trace ?s = trace s0 @ ?t"
    using tr lock_shared_Done(3) [OF l] by (simp add: unlock_shared_eq)
  moreover have "held ?t = [(r, Shared)]"
    using h by simp
  moreover have "structure ?s = structure s0"
    using st1 by simp
  moreover have "heap ?s = add_reader r (heap s0)"
    using hp lock_shared_Done(3) [OF l] by (simp add: unlock_shared_eq)
  ultimately show ?thesis
    unfolding walking_def g using sr by (simp del: append_assoc append.simps)
qed

lemma walking_short:
  assumes w: "walking s0 g r s" and l: "lock_shared r s = Done s1"
  shows "thrown s0 (unlock_shared r (shared_lock_dtor g (log (Read_next r) s1)))"
proof -
  obtain p t where g: "g = \<lparr>pm = Some p, owns = True\<rparr>" and sp: "successor s0 p = Some r"
    and hp: "heap s = add_reader p (heap s0)"
    and tr: "trace s = trace s0 @ t" and h: "held t = [(p, Shared)]"
    and ok: "all_ok_from (successor s0) [] t"
    using w by (auto simp: walking_def)
  let ?t = "t @ [Shared_acquire r, Read_next r, Shared_release p]"
  let ?s = "unlock_shared r (unlock_shared p (log (Read_next r) s1))"
  have "all_ok_from (successor s0) [] ?t"
    using ok h sp all_ok_last [OF ok]
    by (simp add: all_ok_from_append prefix_ok_def read_ok_def release_ok_def release_held_def
          butlast_append)
  then have "final_ok (successor s0) (?t @ [Shared_release r])"
    using h by (intro all_ok_final_release) simp_all
  moreover have "trace ?s = trace s0 @ (?t @ [Shared_release r])"
    using tr lock_shared_Done(3) [OF l] by (simp add: unlock_shared_eq)
  moreover have "held (?t @ [Shared_release r]) = []"
    using h by simp
  moreover have "heap ?s = heap s0"
    using hp lock_shared_Done(3) [OF l] by (simp add: unlock_shared_eq)
  ultimately show ?thesis
    unfolding thrown_def g by (simp del: append_assoc append.simps)
qed

lemma walk_walked:
  assumes "walking s0 g r s"
  shows "walked s0 (walk n g r s)"
  by (rule walk_rule [where I = "\<lambda>n. walking s0" and Q = "walked s0", OF assms])
     (simp_all add: walked_def walking_stopped walking_step walking_short)

subsection \<open>The ways through lookup\<close>

lemma lookup_cases [case_names null undef wait empty invalid stop lock_undef lock_wait return]:
  assumes "list_ptr s = None \<Longrightarrow> lookup n lock_arg s = (Fault, lock_arg, s) \<Longrightarrow> P"
    and "\<And>a. list_ptr s = Some a \<Longrightarrow> lock_shared a s = Undef
           \<Longrightarrow> lookup n lock_arg s = (Fault, lock_arg, s) \<Longrightarrow> P"
    and "\<And>a. list_ptr s = Some a \<Longrightarrow> lock_shared a s = Wait
           \<Longrightarrow> lookup n lock_arg s = (Blocked, lock_arg, s) \<Longrightarrow> P"
    and "\<And>a s1. list_ptr s = Some a \<Longrightarrow> lock_shared a s = Done s1
           \<Longrightarrow> next (heap s1 ! a) = None
           \<Longrightarrow> lookup n lock_arg s
                 = (Threw EmptyChain, lock_arg, unlock_shared a (log (Read_next a) s1)) \<Longrightarrow> P"
    and "\<And>a s1 r. list_ptr s = Some a \<Longrightarrow> lock_shared a s = Done s1
           \<Longrightarrow> next (heap s1 ! a) = Some r \<Longrightarrow> n = 0 \<or> owns lock_arg
           \<Longrightarrow> lookup n lock_arg s
                 = (Threw InvalidIndex, lock_arg, unlock_shared a (log (Read_next a) s1)) \<Longrightarrow> P"
    and "\<And>a s1 r stop s3. list_ptr s = Some a \<Longrightarrow> lock_shared a s = Done s1
           \<Longrightarrow> next (heap s1 ! a) = Some r \<Longrightarrow> n \<noteq> 0 \<Longrightarrow> \<not> owns lock_arg
           \<Longrightarrow> walk n \<lparr>pm = Some a, owns = True\<rparr> r (log (Read_next a) s1) = (Inl stop, s3)
           \<Longrightarrow> lookup n lock_arg s = (stop, lock_arg, s3) \<Longrightarrow> P"
    and "\<And>a s1 r g' r' s3. list_ptr s = Some a \<Longrightarrow> lock_shared a s = Done s1
           \<Longrightarrow> next (heap s1 ! a) = Some r \<Longrightarrow> n \<noteq> 0 \<Longrightarrow> \<not> owns lock_arg
           \<Longrightarrow> walk n \<lparr>pm = Some a, owns = True\<rparr> r (log (Read_next a) s1) = (Inr (g', r'), s3)
           \<Longrightarrow> lock r' s3 = Undef
           \<Longrightarrow> lookup n lock_arg s = (Fault, lock_arg, s3) \<Longrightarrow> P"
    and "\<And>a s1 r g' r' s3. list_ptr s = Some a \<Longrightarrow> lock_shared a s = Done s1
           \<Longrightarrow> next (heap s1 ! a) = Some r \<Longrightarrow> n \<noteq> 0 \<Longrightarrow> \<not> owns lock_arg
           \<Longrightarrow> walk n \<lparr>pm = Some a, owns = True\<rparr> r (log (Read_next a) s1) = (Inr (g', r'), s3)
           \<Longrightarrow> lock r' s3 = Wait
           \<Longrightarrow> lookup n lock_arg s = (Blocked, lock_arg, s3) \<Longrightarrow> P"
    and "\<And>a s1 r g' r' s3 s4. list_ptr s = Some a \<Longrightarrow> lock_shared a s = Done s1
           \<Longrightarrow> next (heap s1 ! a) = Some r \<Longrightarrow> n \<noteq> 0 \<Longrightarrow> \<not> owns lock_arg
           \<Longrightarrow> walk n \<lparr>pm = Some a, owns = True\<rparr> r (log (Read_next a) s1) = (Inr (g', r'), s3)
           \<Longrightarrow> lock r' s3 = Done s4
           \<Longrightarrow> lookup n lock_arg s
                 = (Returned r', \<lparr>pm = Some r', owns = True\<rparr>, shared_lock_dtor g' s4) \<Longrightarrow> P"
  shows P
proof (cases "list_ptr s")
  case None
  then show ?thesis
    using assms(1) by (simp add: lookup_def)
next
  case (Some a)
  show ?thesis
  proof (cases "lock_shared a s")
    case Undef
    then show ?thesis
      using Some assms(2) by (simp add: lookup_def)
  next
    case Wait
    then show ?thesis
      using Some assms(3) by (simp add: lookup_def)
  next
    case (Done s1)
    show ?thesis
    proof (cases "next (heap s1 ! a)")
      case None
      then show ?thesis
        using Some Done assms(4) by (simp add: lookup_def read_next_def)
    next
      case nx: (Some r)
      show ?thesis
      proof (cases "n = 0 \<or> owns lock_arg")
        case True
        then show ?thesis
          using Some Done nx assms(5) [OF Some Done nx] by (auto simp: lookup_def read_next_def)
      next
        case False
        obtain res s3 where wk: "walk n \<lparr>pm = Some a, owns = True\<rparr> r (log (Read_next a) s1) = (res, s3)"
          by (cases "walk n \<lparr>pm = Some a, owns = True\<rparr> r (log (Read_next a) s1)")
        have lk: "lookup n lock_arg s =
                    (case res of
                       Inl stop \<Rightarrow> (stop, lock_arg, s3)
                     | Inr (read_lock, result) \<Rightarrow>
                        (case lock result s3 of
                           Undef \<Rightarrow> (Fault, lock_arg, s3)
                         | Wait \<Rightarrow> (Blocked, lock_arg, s3)
                         | Done s4 \<Rightarrow>
                            (Returned result, \<lparr>pm = Some result, owns = True\<rparr>,
                             shared_lock_dtor read_lock s4)))"
          using Some Done nx False wk
          by (simp add: lookup_def read_next_def Let_def split: sum.splits prod.splits res.splits)
        show ?thesis
        proof (cases res)
          case (Inl stop)
          then show ?thesis
            using assms(6) [OF Some Done nx _ _ wk [unfolded Inl]] False lk by simp
        next
          case (Inr gr)
          obtain g' r' where gr: "gr = (g', r')"
            by (cases gr)
          note wk' = wk [unfolded Inr gr]
          show ?thesis
          proof (cases "lock r' s3")
            case Undef
            then show ?thesis
              using assms(7) [OF Some Done nx _ _ wk' Undef] False lk Inr gr by simp
          next
            case Wait
            then show ?thesis
              using assms(8) [OF Some Done nx _ _ wk' Wait] False lk Inr gr by simp
          next
            case d: (Done s4)
            then show ?thesis
              using assms(9) [OF Some Done nx _ _ wk' d] False lk Inr gr by simp
          qed
        qed
      qed
    qed
  qed
qed

lemma final_ok_Nil: "final_ok sc []"
  by (rule all_ok_final) (simp add: prefix_ok_def)

lemma entered:
  assumes l: "lock_shared a s = Done s1"
  shows "thrown s (unlock_shared a (log (Read_next a) s1))"
    and "next (heap s1 ! a) = Some r
         \<Longrightarrow> walking s \<lparr>pm = Some a, owns = True\<rparr> r (log (Read_next a) s1)"
proof -
  note d = lock_shared_Done [OF l]
  let ?t = "[Shared_acquire a, Read_next a]"
  have ok: "all_ok_from (successor s) [] ?t"
    by (simp add: prefix_ok_def read_ok_def release_ok_def release_held_def butlast_append)
  have "final_ok (successor s) (?t @ [Shared_release a])"
    using ok by (intro all_ok_final_release) simp_all
  then show "thrown s (unlock_shared a (log (Read_next a) s1))"
    using d(3) by (simp add: thrown_def unlock_shared_eq)
  assume nx: "next (heap s1 ! a) = Some r"
  have "successor s1 a = Some r"
    using nx d(1) d(3) by (simp add: successor_def)
  then have "successor s a = Some r"
    using structure_successor [OF structure_lock_shared [OF l]] by simp
  moreover have "structure (log (Read_next a) s1) = structure s"
    using structure_lock_shared [OF l] by simp
  ultimately show "walking s \<lparr>pm = Some a, owns = True\<rparr> r (log (Read_next a) s1)"
    using ok d(3) by (simp add: walking_def)
qed

lemma finished:
  assumes w: "walking s0 g r s3" and l: "lock r s3 = Done s4"
  shows "returned s0 r (shared_lock_dtor g s4)"
proof -
  obtain p t where g: "g = \<lparr>pm = Some p, owns = True\<rparr>" and sp: "successor s0 p = Some r"
    and hp: "heap s3 = add_reader p (heap s0)"
    and tr: "trace s3 = trace s0 @ t" and h: "held t = [(p, Shared)]"
    and ok: "all_ok_from (successor s0) [] t"
    using w by (auto simp: walking_def)
  note d = lock_Done [OF l]
  have "p < length (heap s0)"
    using sp by (simp add: successor_def split: if_splits)
  then have "readers (mutex (heap s3 ! p)) \<noteq> 0"
    using hp by (simp add: add_reader_def)
  then have ne: "p \<noteq> r"
    using d(3) by auto
  let ?u = "t @ [Exclusive_acquire r]"
  have "all_ok_from (successor s0) [] ?u"
    using ok h all_ok_last [OF ok]
    by (simp add: all_ok_from_append prefix_ok_def read_ok_def release_ok_def release_held_def
          butlast_append)
  then have "final_ok (successor s0) (?u @ [Shared_release p])"
    using h by (intro all_ok_final_release) simp_all
  moreover have "trace (unlock_shared p s4) = trace s0 @ (?u @ [Shared_release p])"
    using tr d(4) by (simp add: unlock_shared_eq)
  moreover have "held (?u @ [Shared_release p]) = [(r, Exclusive)]"
    using h by simp
  moreover have "heap (unlock_shared p s4) = set_writer r (heap s0)"
    using hp d(4) ne by (simp add: unlock_shared_eq)
  ultimately show ?thesis
    unfolding returned_def g by (simp del: append_assoc append.simps)
qed

lemma lookup_looked: "looked s lock_arg (lookup n lock_arg s)"
proof (cases rule: lookup_cases [of s n lock_arg])
  case null
  then show ?thesis
    by (auto simp: looked_def final_ok_Nil)
next
  case (undef a)
  then show ?thesis
    by (auto simp: looked_def final_ok_Nil)
next
  case (wait a)
  then show ?thesis
    by (auto simp: looked_def final_ok_Nil)
next
  case (empty a s1)
  then show ?thesis
    using entered(1) [of a s s1] by (simp add: looked_def)
next
  case (invalid a s1 r)
  then show ?thesis
    using entered(1) [of a s s1] by (simp add: looked_def)
next
  case (stop a s1 r stop s3)
  have "walked s (walk n \<lparr>pm = Some a, owns = True\<rparr> r (log (Read_next a) s1))"
    using entered(2) [OF stop(2) stop(3)] by (rule walk_walked)
  then show ?thesis
    using stop(6,7) by (cases stop) (auto simp: walked_def looked_def stopped_def)
next
  case (lock_undef a s1 r g' r' s3)
  have "walked s (walk n \<lparr>pm = Some a, owns = True\<rparr> r (log (Read_next a) s1))"
    using entered(2) [OF lock_undef(2) lock_undef(3)] by (rule walk_walked)
  then have "stopped s s3"
    using lock_undef(6) by (simp add: walked_def walking_stopped)
  then show ?thesis
    using lock_undef(8) by (auto simp: looked_def stopped_def)
next
  case (lock_wait a s1 r g' r' s3)
  have "walked s (walk n \<lparr>pm = Some a, owns = True\<rparr> r (log (Read_next a) s1))"
    using entered(2) [OF lock_wait(2) lock_wait(3)] by (rule walk_walked)
  then have "stopped s s3"
    using lock_wait(6) by (simp add: walked_def walking_stopped)
  then show ?thesis
    using lock_wait(8) by (auto simp: looked_def stopped_def)
next
  case (return a s1 r g' r' s3 s4)
  have "walked s (walk n \<lparr>pm = Some a, owns = True\<rparr> r (log (Read_next a) s1))"
    using entered(2) [OF return(2) return(3)] by (rule walk_walked)
  then have "walking s g' r' s3"
    using return(6) by (simp add: walked_def)
  then have "returned s r' (shared_lock_dtor g' s4)"
    using return(7) by (rule finished)
  then show ?thesis
    using return(8) by (simp add: looked_def)
qed

lemma lookup_final_ok: "final_ok (successor s) (call_events n lock_arg s)"
proof -
  obtain out g' s' where l: "lookup n lock_arg s = (out, g', s')"
    by (cases "lookup n lock_arg s")
  then have "looked s lock_arg (out, g', s')"
    using lookup_looked [of s lock_arg n] by simp
  then have "\<exists>t. trace s' = trace s @ t \<and> final_ok (successor s) t"
    by (cases out) (auto simp: looked_def returned_def thrown_def)
  then show ?thesis
    using l by (auto simp: call_events_def)
qed

lemma lookup_releases_held: "releases_held (call_events n lock_arg s)"
  using lookup_final_ok [of s n lock_arg] by (simp add: final_ok_def)

subsection \<open>The demonstration\<close>

lemma populate_reference: "populate_list (new_list init) = Some reference"
  by code_simp

lemma main_prints: "main = Some [''over'', ''fox'', ''dog'']"
  by code_simp

text \<open>A lookup past a node whose lock is owned exclusively waits at that node.\<close>

lemma lookup_past_owned_lock:
  "lookup 9 no_lock (reference\<lparr>heap := set_writer 6 (heap reference)\<rparr>)
     = (Blocked, no_lock,
        reference\<lparr>heap := add_reader 5 (set_writer 6 (heap reference)),
                  trace := [Shared_acquire 0, Read_next 0, Shared_acquire 1, Read_next 1,
                            Shared_release 0, Shared_acquire 2, Read_next 2, Shared_release 1,
                            Shared_acquire 3, Read_next 3, Shared_release 2, Shared_acquire 4,
                            Read_next 4, Shared_release 3, Shared_acquire 5, Read_next 5,
                            Shared_release 4]\<rparr>)"
  by code_simp

subsection \<open>Building the chain\<close>

lemma find_last_chain:
  assumes "\<forall>i\<le>k. next (h ! i) = (if i < k then Some (Suc i) else None)" "k < length h"
  shows "p \<le> k \<Longrightarrow> find_last h p = Some (Some k)"
proof (induction "k - p" arbitrary: p)
  case 0
  then have "p = k"
    by simp
  then show ?case
    using assms by (subst find_last.simps) simp
next
  case (Suc d)
  then have "p < k" and "find_last h (Suc p) = Some (Some k)"
    by simp_all
  then show ?case
    using assms by (subst find_last.simps) simp
qed

lemma add_all_append:
  "add_all (xs @ ys) s = (case add_all xs s of None \<Rightarrow> None | Some s1 \<Rightarrow> add_all ys s1)"
  by (induction xs arbitrary: s) (simp_all split: option.splits)

lemma chain_node_snoc_less: "i < length vs \<Longrightarrow> chain_node (vs @ [v]) i = chain_node vs i"
  by (auto simp: chain_node_def nth_append nth_Cons split: nat.splits)

lemma chain_node_snoc_last:
  "chain_node (vs @ [v]) (length vs) = (chain_node vs (length vs))\<lparr>next := Some (Suc (length vs))\<rparr>"
  by (auto simp: chain_node_def nth_append nth_Cons split: nat.splits)

lemma list_add_chain: "list_add v (chain_state vs) = Some (chain_state (vs @ [v]))"
proof -
  let ?k = "length vs"
  let ?new = "\<lparr>mutex = \<lparr>readers = 0, writer = False, serial_num = of_nat (Suc ?k)\<rparr>,
               element = v, next = None\<rparr>"
  let ?h = "map (chain_node vs) [0..<Suc ?k] @ [?new]"
  have "\<forall>i\<le>?k. next (?h ! i) = (if i < ?k then Some (Suc i) else None)"
    by (auto simp: nth_append chain_node_def simp del: upt_Suc)
  then have f: "find_last ?h 0 = Some (Some ?k)"
    by (intro find_last_chain) simp_all
  have "?h[?k := (?h ! ?k)\<lparr>next := Some (Suc ?k)\<rparr>] = map (chain_node (vs @ [v])) [0..<Suc (Suc ?k)]"
  proof (rule nth_equalityI)
    show "length (?h[?k := (?h ! ?k)\<lparr>next := Some (Suc ?k)\<rparr>])
            = length (map (chain_node (vs @ [v])) [0..<Suc (Suc ?k)])"
      by simp
  next
    fix i
    assume "i < length (?h[?k := (?h ! ?k)\<lparr>next := Some (Suc ?k)\<rparr>])"
    then have "i < ?k \<or> i = ?k \<or> i = Suc ?k"
      by auto
    then show "?h[?k := (?h ! ?k)\<lparr>next := Some (Suc ?k)\<rparr>] ! i
                 = map (chain_node (vs @ [v])) [0..<Suc (Suc ?k)] ! i"
    proof (elim disjE)
      assume "i < ?k"
      then show ?thesis
        by (simp add: nth_append chain_node_snoc_less del: upt_Suc)
    next
      assume "i = ?k"
      then show ?thesis
        by (simp add: nth_append chain_node_snoc_last del: upt_Suc)
    next
      assume "i = Suc ?k"
      then show ?thesis
        by (simp add: nth_append chain_node_def del: upt_Suc)
    qed
  qed
  then show ?thesis
    using f
    by (simp add: list_add_def new_node_def verbose_mutex_ctor_def chain_state_def Let_def
          del: upt_Suc)
qed

lemma chain_eq: "chain vs = Some (chain_state vs)"
proof (induction vs rule: rev_induct)
  case Nil
  show ?case
    by (simp add: chain_def new_list_def new_node_def verbose_mutex_ctor_def init_def
          chain_state_def chain_node_def)
next
  case (snoc v vs)
  then show ?case
    by (simp add: chain_def add_all_append list_add_chain)
qed

subsection \<open>Lookup on a built chain\<close>

lemma chain_state_simps [simp]:
  "list_ptr (chain_state vs) = Some 0"
  "length (heap (chain_state vs)) = Suc (length vs)"
  "trace (chain_state vs) = []"
  by (simp_all add: chain_state_def)

lemma heap_chain_state:
  "i \<le> length vs \<Longrightarrow> heap (chain_state vs) ! i = chain_node vs i"
  by (simp add: chain_state_def del: upt_Suc)

lemma successor_chain_state:
  "successor (chain_state vs) p = (if p < length vs then Some (Suc p) else None)"
  by (auto simp: successor_def heap_chain_state chain_node_def)

lemma node_add_reader:
  "writer (mutex (add_reader p h ! i)) = writer (mutex (h ! i))"
  "next (add_reader p h ! i) = next (h ! i)"
  "p \<noteq> i \<Longrightarrow> add_reader p h ! i = h ! i"
  by (cases "p < length h"; simp add: add_reader_def nth_list_update list_update_beyond)+

lemma word_pred_cases:
  fixes n :: "32 word"
  assumes "1 \<le> unat n"
  shows "n - 1 = 0 \<Longrightarrow> unat n = 1"
    and "n - 1 \<noteq> 0 \<Longrightarrow> unat n = Suc (unat (n - 1)) \<and> 1 \<le> unat (n - 1)"
proof -
  have nz: "n \<noteq> 0"
    using assms by auto
  have u: "unat (n - 1) = unat n - 1"
    using unat_minus_one [OF nz] .
  show "n - 1 = 0 \<Longrightarrow> unat n = 1"
    by simp
  assume "n - 1 \<noteq> 0"
  then have "unat (n - 1) \<noteq> 0"
    by (simp add: unat_eq_0)
  then show "unat n = Suc (unat (n - 1)) \<and> 1 \<le> unat (n - 1)"
    using u by simp
qed

lemma walk_counted:
  assumes "counting vs N n g r s"
  shows "counted vs N (walk n g r s)"
proof (rule walk_rule [where I = "counting vs N" and Q = "counted vs N", OF assms])
  fix n :: "32 word" and g r s
  assume "counting vs N n g r s" "n - 1 = 0"
  then show "counted vs N (Inr (g, r), s)"
    using word_pred_cases(1) [of n] by (simp add: counting_def counted_def)
next
  fix n :: "32 word" and g r s
  assume c: "counting vs N n g r s"
  then obtain p where "heap s = add_reader p (heap (chain_state vs))" and r: "r \<le> length vs"
    by (auto simp: counting_def walking_def)
  then have l: "r < length (heap s)"
      and w: "\<not> writer (mutex (heap s ! r))"
    by (simp_all add: node_add_reader heap_chain_state chain_node_def)
  show "lock_shared r s = Undef \<Longrightarrow> counted vs N (Inl Fault, s)"
    using l by (simp add: lock_shared_def Let_def split: if_splits)
  show "lock_shared r s = Wait \<Longrightarrow> counted vs N (Inl Blocked, s)"
    using l w by (simp add: lock_shared_def Let_def split: if_splits)
next
  fix n :: "32 word" and g r s s1
  assume c: "counting vs N n g r s" and nz: "n - 1 \<noteq> 0" and l: "lock_shared r s = Done s1"
    and nx: "next (heap s1 ! r) = None"
  obtain p where h: "heap s = add_reader p (heap (chain_state vs))" and r: "r \<le> length vs"
    using c by (auto simp: counting_def walking_def)
  have "next (heap (chain_state vs) ! r) = None"
    using nx h lock_shared_Done(3) [OF l] by (simp add: node_add_reader)
  then have "r = length vs"
    using r by (simp add: heap_chain_state chain_node_def split: if_splits)
  then show "counted vs N (Inl (Threw IndexOutOfRange),
               shared_lock_dtor \<lparr>pm = Some r, owns = True\<rparr>
                 (shared_lock_dtor g (log (Read_next r) s1)))"
    using c word_pred_cases(2) [of n, OF _ nz] by (simp add: counting_def counted_def)
next
  fix n :: "32 word" and g r s s1 r'
  assume c: "counting vs N n g r s" and nz: "n - 1 \<noteq> 0" and l: "lock_shared r s = Done s1"
    and nx: "next (heap s1 ! r) = Some r'"
  obtain p where h: "heap s = add_reader p (heap (chain_state vs))" and r: "r \<le> length vs"
    using c by (auto simp: counting_def walking_def)
  have "next (heap (chain_state vs) ! r) = Some r'"
    using nx h lock_shared_Done(3) [OF l] by (simp add: node_add_reader)
  then have "r < length vs" "r' = Suc r"
    using r by (auto simp: heap_chain_state chain_node_def split: if_splits)
  moreover have "walking (chain_state vs) \<lparr>pm = Some r, owns = True\<rparr> r'
                   (shared_lock_dtor g (log (Read_next r) s1))"
    using c l nx by (intro walking_step) (simp_all add: counting_def)
  ultimately show "counting vs N (n - 1) \<lparr>pm = Some r, owns = True\<rparr> r'
                     (shared_lock_dtor g (log (Read_next r) s1))"
    using c word_pred_cases(2) [of n, OF _ nz] by (simp add: counting_def)
qed

lemma lookup_chain:
  assumes ne: "vs \<noteq> []" and no: "\<not> owns lock_arg" and nz: "n \<noteq> 0"
  shows "fst (lookup n lock_arg (chain_state vs))
           = (if unat n \<le> length vs then Returned (unat n) else Threw IndexOutOfRange)"
proof -
  let ?s = "chain_state vs"
  have l0: "lock_shared 0 ?s \<noteq> Undef" "lock_shared 0 ?s \<noteq> Wait"
    by (simp_all add: lock_shared_def Let_def heap_chain_state chain_node_def)
  have n1: "1 \<le> unat n"
    using nz by (simp add: unat_gt_0 Suc_le_eq)
  have count: "counted vs (unat n) (walk n \<lparr>pm = Some 0, owns = True\<rparr> r (log (Read_next 0) s1))"
    and walk: "walked ?s (walk n \<lparr>pm = Some 0, owns = True\<rparr> r (log (Read_next 0) s1))"
    if d: "lock_shared 0 ?s = Done s1" and nx: "next (heap s1 ! 0) = Some r" for s1 r
  proof -
    have w: "walking ?s \<lparr>pm = Some 0, owns = True\<rparr> r (log (Read_next 0) s1)"
      using entered(2) [OF d nx] .
    then have "successor ?s 0 = Some r"
      by (simp add: walking_def)
    then have "r = 1"
      by (simp add: successor_chain_state split: if_splits)
    then have "counting vs (unat n) n \<lparr>pm = Some 0, owns = True\<rparr> r (log (Read_next 0) s1)"
      using w ne n1 by (simp add: counting_def Suc_le_eq)
    then show "counted vs (unat n) (walk n \<lparr>pm = Some 0, owns = True\<rparr> r (log (Read_next 0) s1))"
      by (rule walk_counted)
    show "walked ?s (walk n \<lparr>pm = Some 0, owns = True\<rparr> r (log (Read_next 0) s1))"
      using w by (rule walk_walked)
  qed
  have free: "lock r' s3 \<noteq> Undef \<and> lock r' s3 \<noteq> Wait"
    if w: "walking ?s g' r' s3" and le: "r' \<le> length vs" for g' r' s3
  proof -
    obtain p where sp: "successor ?s p = Some r'" and h: "heap s3 = add_reader p (heap ?s)"
      using w by (auto simp: walking_def)
    have "p \<noteq> r'"
      using sp by (auto simp: successor_chain_state split: if_splits)
    then have "heap s3 ! r' = chain_node vs r'"
      using h le by (simp add: node_add_reader heap_chain_state)
    then show ?thesis
      using h le by (simp add: lock_def Let_def chain_node_def)
  qed
  show ?thesis
  proof (cases rule: lookup_cases [of ?s n lock_arg])
    case null
    then show ?thesis
      by simp
  next
    case (undef a)
    then show ?thesis
      using l0 by simp
  next
    case (wait a)
    then show ?thesis
      using l0 by simp
  next
    case (empty a s1)
    then have "next (heap ?s ! 0) = None"
      using lock_shared_Done(3) [OF empty(2)] by (simp add: node_add_reader)
    then show ?thesis
      using ne by (simp add: heap_chain_state chain_node_def)
  next
    case (invalid a s1 r)
    then show ?thesis
      using no nz by simp
  next
    case (stop a s1 r stop s3)
    then show ?thesis
      using count [of s1 r] walk [of s1 r]
      by (cases stop) (auto simp: counted_def walked_def)
  next
    case (lock_undef a s1 r g' r' s3)
    then show ?thesis
      using count [of s1 r] walk [of s1 r] free [of g' r' s3]
      by (auto simp: counted_def walked_def)
  next
    case (lock_wait a s1 r g' r' s3)
    then show ?thesis
      using count [of s1 r] walk [of s1 r] free [of g' r' s3]
      by (auto simp: counted_def walked_def)
  next
    case (return a s1 r g' r' s3 s4)
    then show ?thesis
      using count [of s1 r] by (auto simp: counted_def)
  qed
qed

lemma lock_shared_free:
  assumes "a < length (heap s)" "\<not> writer (mutex (heap s ! a))"
  shows "lock_shared a s
           = Done (s\<lparr>heap := add_reader a (heap s), trace := trace s @ [Shared_acquire a]\<rparr>)"
  using assms by (simp add: lock_shared_def Let_def log_def set_mutex_def add_reader_def)

lemma lookup_empty:
  assumes "list_ptr s = Some a" "a < length (heap s)" "\<not> writer (mutex (heap s ! a))"
    "next (heap s ! a) = None"
  shows "lookup n lock_arg s
           = (Threw EmptyChain, lock_arg,
              s\<lparr>trace := trace s @ [Shared_acquire a, Read_next a, Shared_release a]\<rparr>)"
  using assms
  by (simp add: lookup_def lock_shared_free read_next_def unlock_shared_eq log_def
        node_add_reader)

lemma lookup_invalid:
  assumes "list_ptr s = Some a" "a < length (heap s)" "\<not> writer (mutex (heap s ! a))"
    "next (heap s ! a) = Some r" "n = 0 \<or> owns lock_arg"
  shows "lookup n lock_arg s
           = (Threw InvalidIndex, lock_arg,
              s\<lparr>trace := trace s @ [Shared_acquire a, Read_next a, Shared_release a]\<rparr>)"
  using assms
  by (auto simp: lookup_def lock_shared_free read_next_def unlock_shared_eq log_def
        node_add_reader)

lemma lookup_sentinel_held:
  assumes "list_ptr s = Some a" "a < length (heap s)" "writer (mutex (heap s ! a))"
  shows "lookup n lock_arg s = (Blocked, lock_arg, s)"
  using assms by (simp add: lookup_def lock_shared_def Let_def)

lemma call_events_eq:
  "lookup n lock_arg s = (out, g', s\<lparr>trace := trace s @ t\<rparr>) \<Longrightarrow> call_events n lock_arg s = t"
  by (simp add: call_events_def)

subsection \<open>Serial numbers\<close>

lemma construct_serial:
  "map serial_num (fst (construct k s)) = map (\<lambda>i. number s + of_nat i) [0..<k]"
proof (induction k arbitrary: s)
  case 0
  show ?case by simp
next
  case (Suc k)
  have "map (\<lambda>i. number s + 1 + of_nat i) [0..<k] = map (\<lambda>i. number s + of_nat (Suc i)) [0..<k]"
    by (simp add: add.assoc add.commute)
  also have "\<dots> = map (\<lambda>i. number s + of_nat i) (map Suc [0..<k])"
    by (simp add: comp_def)
  finally have "map (\<lambda>i. number s + 1 + of_nat i) [0..<k]
                  = map (\<lambda>i. number s + of_nat i) [Suc 0..<Suc k]"
    by (simp add: map_Suc_upt)
  moreover have "[0..<Suc k] = 0 # [Suc 0..<Suc k]"
    by (simp add: upt_conv_Cons)
  ultimately show ?case
    using Suc [of "s\<lparr>number := number s + 1\<rparr>"]
    by (simp add: verbose_mutex_ctor_def case_prod_unfold Let_def del: upt_Suc)
qed

lemma construct_number: "number (snd (construct k s)) = number s + of_nat k"
  by (induction k arbitrary: s)
     (simp_all add: verbose_mutex_ctor_def case_prod_unfold Let_def add.assoc)

section \<open>The properties of the specification\<close>

text \<open>
  C1. For the chain built by appending the payloads \<open>vs\<close> in order, every index \<open>n\<close> with
  \<open>1 \<le> n \<le> length vs\<close> and every guard that owns no lock: \<^verbatim>\<open>lookup\<close> returns the node at
  address \<open>n\<close>, whose payload is the \<open>n\<close>-th of \<open>vs\<close>; on return the caller's guard owns the
  mutex of that node, which has an exclusive holder and no shared one, and no other lock
  has changed. On the list that \<^verbatim>\<open>populate_list\<close> builds, \<^verbatim>\<open>lookup(6)\<close> returns the node
  with the payload \<^verbatim>\<open>over\<close>.
\<close>

theorem lookup_returns_nth:
  assumes "\<not> owns lock_arg" "1 \<le> unat n" "unat n \<le> length vs"
  shows "\<exists>s s'. chain vs = Some s \<and>
           lookup n lock_arg s = (Returned (unat n), \<lparr>pm = Some (unat n), owns = True\<rparr>, s') \<and>
           element (heap s' ! unat n) = vs ! (unat n - 1) \<and>
           heap s' = set_writer (unat n) (heap s) \<and>
           writer (mutex (heap s' ! unat n)) \<and> readers (mutex (heap s' ! unat n)) = 0"
proof -
  let ?s = "chain_state vs"
  have ne: "vs \<noteq> []" and nz: "n \<noteq> 0"
    using assms by auto
  obtain out g' s' where l: "lookup n lock_arg ?s = (out, g', s')"
    by (cases "lookup n lock_arg ?s")
  have out: "out = Returned (unat n)"
    using lookup_chain [OF ne assms(1) nz] assms(3) l by simp
  have "looked ?s lock_arg (out, g', s')"
    using lookup_looked [of ?s lock_arg n] l by simp
  then have g': "g' = \<lparr>pm = Some (unat n), owns = True\<rparr>"
    and h: "heap s' = set_writer (unat n) (heap ?s)"
    using out by (simp_all add: looked_def returned_def)
  have nd: "heap s' ! unat n = (chain_node vs (unat n))\<lparr>mutex := (mutex (chain_node vs (unat n)))\<lparr>writer := True\<rparr>\<rparr>"
    using h assms(3) by (simp add: set_writer_def heap_chain_state)
  have "element (heap s' ! unat n) = vs ! (unat n - 1)"
    using nd assms(2) by (simp add: chain_node_def nth_Cons split: nat.splits)
  moreover have "writer (mutex (heap s' ! unat n)) \<and> readers (mutex (heap s' ! unat n)) = 0"
    using nd by (simp add: chain_node_def)
  ultimately show ?thesis
    using chain_eq [of vs] l out g' h by simp
qed

theorem lookup_returns_nth_witness:
  "\<exists>s s'. populate_list (new_list init) = Some s \<and>
     lookup 6 no_lock s = (Returned 6, \<lparr>pm = Some 6, owns = True\<rparr>, s') \<and>
     element (heap s' ! 6) = ''over''"
proof -
  have w: "read_words [] contents
             = [''The'', ''quick'', ''brown'', ''fox'', ''jumped'', ''over'', ''the'', ''lazy'', ''dog'']"
    by code_simp
  have "\<not> owns no_lock" "1 \<le> unat (6 :: 32 word)"
     "unat (6 :: 32 word) \<le> length (read_words [] contents)"
    by (simp_all add: no_lock_def w)
  from lookup_returns_nth [OF this] show ?thesis
    by (auto simp: populate_list_def chain_def w)
qed

text \<open>
  C2. Throughout every call of \<^verbatim>\<open>lookup\<close>, whatever the state and the outcome: when a
  node's \<^verbatim>\<open>next\<close> is read, the call holds that node's lock (so the sentinel's \<^verbatim>\<open>next\<close> is
  read after the sentinel's shared lock is acquired); and when a shared lock is released
  during the walk, the call already holds the shared lock of the successor node. The one
  release this leaves out is the last event of a call, the release of \<^verbatim>\<open>read_lock\<close> as the
  call returns or throws.
\<close>

theorem lookup_hand_over_hand:
  "reads_locked (call_events n lock_arg s) \<and> hand_over (successor s) (call_events n lock_arg s)"
  using lookup_final_ok [of s n lock_arg] by (simp add: final_ok_def)

theorem lookup_hand_over_hand_witness:
  "call_events 4 no_lock reference
     = [Shared_acquire 0, Read_next 0, Shared_acquire 1, Read_next 1, Shared_release 0,
        Shared_acquire 2, Read_next 2, Shared_release 1, Shared_acquire 3, Read_next 3,
        Shared_release 2, Exclusive_acquire 4, Shared_release 3]
   \<and> reads_locked (call_events 4 no_lock reference)
   \<and> hand_over (successor reference) (call_events 4 no_lock reference)"
proof -
  have "call_events 4 no_lock reference
     = [Shared_acquire 0, Read_next 0, Shared_acquire 1, Read_next 1, Shared_release 0,
        Shared_acquire 2, Read_next 2, Shared_release 1, Shared_acquire 3, Read_next 3,
        Shared_release 2, Exclusive_acquire 4, Shared_release 3]"
    by code_simp
  then show ?thesis
    using lookup_hand_over_hand [of 4 no_lock reference] by simp
qed

text \<open>
  C3. At every moment of every call of \<^verbatim>\<open>lookup\<close> the call holds at most two locks, and at
  every moment after its first event (the shared acquisition of the sentinel's lock) and
  before its last event it holds at least one. When the call returns, the one lock that
  is left is the exclusive lock of the result, now owned by the caller's guard.
\<close>

theorem lookup_lock_count:
  "at_most_two (call_events n lock_arg s) \<and> never_none (call_events n lock_arg s) \<and>
   (case fst (lookup n lock_arg s) of
      Returned r \<Rightarrow> held (call_events n lock_arg s) = [(r, Exclusive)]
    | _ \<Rightarrow> True)"
proof -
  obtain out g' s' where l: "lookup n lock_arg s = (out, g', s')"
    by (cases "lookup n lock_arg s")
  then have "looked s lock_arg (out, g', s')"
    using lookup_looked [of s lock_arg n] by simp
  then have "case out of Returned r \<Rightarrow> held (call_events n lock_arg s) = [(r, Exclusive)]
             | _ \<Rightarrow> True"
    using l by (cases out) (auto simp: looked_def returned_def call_events_def)
  then show ?thesis
    using l lookup_final_ok [of s n lock_arg] by (simp add: final_ok_def)
qed

theorem lookup_lock_count_witness:
  "map (\<lambda>u. length (held u)) (prefixes (call_events 3 no_lock reference))
     = [0, 1, 1, 2, 2, 1, 2, 2, 1, 2, 1]
   \<and> at_most_two (call_events 3 no_lock reference)
   \<and> never_none (call_events 3 no_lock reference)
   \<and> held (call_events 3 no_lock reference) = [(3, Exclusive)]"
proof -
  have "map (\<lambda>u. length (held u)) (prefixes (call_events 3 no_lock reference))
     = [0, 1, 1, 2, 2, 1, 2, 2, 1, 2, 1]"
    by code_simp
  moreover have "fst (lookup 3 no_lock reference) = Returned 3"
    by code_simp
  ultimately show ?thesis
    using lookup_lock_count [of 3 no_lock reference] by simp
qed

text \<open>
  C4. For the chain built from a non-empty list of payloads \<open>vs\<close> and a guard that owns
  no lock: \<^verbatim>\<open>lookup(0)\<close> throws the invalid-argument error and \<^verbatim>\<open>lookup(length vs + 1)\<close>
  throws the list-too-short error; after either call every lock is free, as before it,
  the guard is unchanged and the call holds nothing. The index is an \<^verbatim>\<open>unsigned int\<close>
  whose value is \<open>length vs + 1\<close>.
\<close>

theorem lookup_bounds:
  assumes "vs \<noteq> []" "\<not> owns lock_arg" "unat n = Suc (length vs)"
  shows "\<exists>s s0 s1. chain vs = Some s \<and>
           lookup 0 lock_arg s = (Threw InvalidIndex, lock_arg, s0) \<and> heap s0 = heap s \<and>
           lookup n lock_arg s = (Threw IndexOutOfRange, lock_arg, s1) \<and> heap s1 = heap s \<and>
           list_all (\<lambda>nd. readers (mutex nd) = 0 \<and> \<not> writer (mutex nd)) (heap s) \<and>
           held (call_events 0 lock_arg s) = [] \<and> held (call_events n lock_arg s) = []"
proof -
  let ?s = "chain_state vs"
  let ?t = "[Shared_acquire 0, Read_next 0, Shared_release 0]"
  have nz: "n \<noteq> 0"
    using assms(3) by auto
  have "next (heap ?s ! 0) = Some 1" "\<not> writer (mutex (heap ?s ! 0))"
    using assms(1) by (simp_all add: heap_chain_state chain_node_def)
  then have l0: "lookup 0 lock_arg ?s = (Threw InvalidIndex, lock_arg, ?s\<lparr>trace := trace ?s @ ?t\<rparr>)"
    by (intro lookup_invalid) simp_all
  obtain out g' s' where l: "lookup n lock_arg ?s = (out, g', s')"
    by (cases "lookup n lock_arg ?s")
  have out: "out = Threw IndexOutOfRange"
    using lookup_chain [OF assms(1) assms(2) nz] assms(3) l by simp
  have "looked ?s lock_arg (out, g', s')"
    using lookup_looked [of ?s lock_arg n] l by simp
  then have g': "g' = lock_arg" and th: "thrown ?s s'"
    using out by (simp_all add: looked_def)
  have h: "heap s' = heap ?s" and "held (call_events n lock_arg ?s) = []"
    using th l by (auto simp: thrown_def call_events_def)
  moreover have "held (call_events 0 lock_arg ?s) = []"
    using call_events_eq [OF l0] by simp
  moreover have "list_all (\<lambda>nd. readers (mutex nd) = 0 \<and> \<not> writer (mutex nd)) (heap ?s)"
    by (simp add: chain_state_def list_all_iff chain_node_def del: upt_Suc)
  ultimately show ?thesis
    using chain_eq [of vs] l0 l out g' by simp
qed

theorem lookup_bounds_witness:
  "\<exists>s s0 s1. populate_list (new_list init) = Some s \<and>
     lookup 0 no_lock s = (Threw InvalidIndex, no_lock, s0) \<and> heap s0 = heap s \<and>
     lookup 10 no_lock s = (Threw IndexOutOfRange, no_lock, s1) \<and> heap s1 = heap s"
proof -
  have w: "read_words [] contents
             = [''The'', ''quick'', ''brown'', ''fox'', ''jumped'', ''over'', ''the'', ''lazy'', ''dog'']"
    by code_simp
  have "read_words [] contents \<noteq> []" "\<not> owns no_lock"
     "unat (10 :: 32 word) = Suc (length (read_words [] contents))"
    by (simp_all add: no_lock_def w)
  from lookup_bounds [OF this] show ?thesis
    by (auto simp: populate_list_def chain_def w)
qed

text \<open>
  C5. On a list with at least one element, whose sentinel lock has no exclusive holder,
  \<^verbatim>\<open>lookup\<close> with a guard that already owns a lock throws the invalid-argument error, for
  every index. The call takes the sentinel's shared lock, reads the sentinel's \<^verbatim>\<open>next\<close>
  and releases the lock again: these are its only events, and it leaves the heap, and so
  every lock, as it was.
\<close>

theorem lookup_owned_guard:
  assumes "list_ptr s = Some a" "a < length (heap s)" "next (heap s ! a) = Some r"
    and "\<not> writer (mutex (heap s ! a))"
    and "owns lock_arg"
  shows "lookup n lock_arg s
           = (Threw InvalidIndex, lock_arg,
              s\<lparr>trace := trace s @ [Shared_acquire a, Read_next a, Shared_release a]\<rparr>)"
  using assms by (intro lookup_invalid) simp_all

theorem lookup_owned_guard_witness:
  "lookup 6 \<lparr>pm = Some 4, owns = True\<rparr> (reference\<lparr>heap := set_writer 4 (heap reference)\<rparr>)
     = (Threw InvalidIndex, \<lparr>pm = Some 4, owns = True\<rparr>,
        reference\<lparr>heap := set_writer 4 (heap reference),
                  trace := [Shared_acquire 0, Read_next 0, Shared_release 0]\<rparr>)"
  using lookup_owned_guard [of "reference\<lparr>heap := set_writer 4 (heap reference)\<rparr>" 0 1
          "\<lparr>pm = Some 4, owns = True\<rparr>" 6]
  by (simp add: reference_def set_writer_def)

text \<open>
  C6. When \<^verbatim>\<open>lookup\<close> throws (empty list, invalid argument, list too short), the locks are
  as they were before the call, the caller's guard is unchanged, and the call holds none
  of the locks it acquired.
\<close>

theorem lookup_failure_releases:
  assumes "lookup n lock_arg s = (Threw e, g', s')"
  shows "heap s' = heap s \<and> g' = lock_arg \<and> held (call_events n lock_arg s) = []"
  using assms lookup_looked [of s lock_arg n]
  by (auto simp: looked_def thrown_def call_events_def)

theorem lookup_failure_releases_witness:
  "lookup 10 no_lock reference
     = (Threw IndexOutOfRange, no_lock,
        reference\<lparr>trace := call_events 10 no_lock reference\<rparr>)
   \<and> length (call_events 10 no_lock reference) = 30
   \<and> held (call_events 10 no_lock reference) = []"
proof -
  have l: "lookup 10 no_lock reference
     = (Threw IndexOutOfRange, no_lock,
        reference\<lparr>trace := call_events 10 no_lock reference\<rparr>)"
    by code_simp
  have "length (call_events 10 no_lock reference) = 30"
    by code_simp
  then show ?thesis
    using l lookup_failure_releases [OF l] by simp
qed

text \<open>
  C7. On a list with no element (the sentinel's \<^verbatim>\<open>next\<close> is null), whose sentinel lock has
  no exclusive holder, \<^verbatim>\<open>lookup\<close> throws the empty-list error for every index and every
  guard, and leaves every lock as it was.
\<close>

theorem lookup_empty_chain:
  assumes "list_ptr s = Some a" "a < length (heap s)" "next (heap s ! a) = None"
    and "\<not> writer (mutex (heap s ! a))"
  shows "lookup n lock_arg s
           = (Threw EmptyChain, lock_arg,
              s\<lparr>trace := trace s @ [Shared_acquire a, Read_next a, Shared_release a]\<rparr>)"
  using assms by (intro lookup_empty) simp_all

theorem lookup_empty_chain_witness:
  "lookup 1 no_lock (new_list init)
     = (Threw EmptyChain, no_lock,
        (new_list init)\<lparr>trace := [Shared_acquire 0, Read_next 0, Shared_release 0]\<rparr>)"
  using lookup_empty_chain [of "new_list init" 0 1 no_lock]
  by (simp add: new_list_def new_node_def verbose_mutex_ctor_def init_def)

text \<open>
  C8. For every state and every call of \<^verbatim>\<open>lookup\<close>, whatever its outcome, the structure of
  the list after the call is the structure before it: the same nodes in the same order,
  with the same payloads, serial numbers and \<^verbatim>\<open>next\<close> links, the same sentinel and
  counter. Only the state of the locks, the caller's guard and the events differ.
\<close>

theorem lookup_frame: "structure (snd (snd (lookup n lock_arg s))) = structure s"
proof -
  have w: "walk n g r s2 = (res, s3) \<Longrightarrow> structure s3 = structure s2" for g r s2 res s3
    using structure_walk [of n g r s2] by simp
  show ?thesis
    by (auto simp: lookup_def read_next_def Let_def structure_lock_shared structure_lock
             dest!: w split: option.splits res.splits sum.splits prod.splits)
qed

text \<open>
  C9, as amended. The constructor gives a lock the current value of the one counter
  \<^verbatim>\<open>verbose_mutex::number\<close> and increments the counter. The counter is an \<^verbatim>\<open>unsigned int\<close>:
  the serial numbers of locks constructed in sequence are pairwise distinct and strictly
  increasing in construction order as long as the counter does not pass \<open>2 ^ 32 - 1\<close>.
\<close>

theorem serial_numbers_increase:
  assumes "unat (number s) + k \<le> 2 ^ 32"
  shows "distinct (map serial_num (fst (construct k s))) \<and>
         sorted_wrt (<) (map serial_num (fst (construct k s)))"
proof -
  let ?ids = "map serial_num (fst (construct k s))"
  have ids: "?ids = map (\<lambda>i. number s + of_nat i) [0..<k]"
    by (rule construct_serial)
  have u: "unat (number s + of_nat i) = unat (number s) + i" if "i < k" for i
  proof -
    have i: "unat (of_nat i :: 32 word) = i"
      using assms that by (simp add: unat_of_nat)
    have "unat (number s) + unat (of_nat i :: 32 word) < 2 ^ LENGTH(32)"
      using assms that i by simp
    then show ?thesis
      using i unat_add_lem [THEN iffD1, of "number s" "of_nat i"] by simp
  qed
  have "sorted_wrt (<) ?ids"
    unfolding ids by (simp add: sorted_wrt_iff_nth_less word_less_nat_alt u)
  moreover have "distinct ?ids"
    using \<open>sorted_wrt (<) ?ids\<close> strict_sorted_iff by blast
  ultimately show ?thesis
    by simp
qed

theorem serial_numbers_increase_witness:
  "map serial_num (fst (construct 3 init)) = [0, 1, 2] \<and>
   distinct (map serial_num (fst (construct 3 init))) \<and>
   sorted_wrt (<) (map serial_num (fst (construct 3 init)))"
proof -
  have "map serial_num (fst (construct 3 init)) = [0, 1, 2]"
    by code_simp
  moreover have "unat (number init) + 3 \<le> 2 ^ 32"
    by (simp add: init_def)
  ultimately show ?thesis
    using serial_numbers_increase [of init 3] by simp
qed

text \<open>
  C9 as stated fails once the counter wraps: of \<open>2 ^ 32 + 1\<close> locks constructed from the
  start of the program, the last has the serial number \<open>0\<close> of the first.
\<close>

theorem serial_numbers_wrap:
  "\<not> distinct (map serial_num (fst (construct (2 ^ 32 + 1) init)))"
proof -
  let ?ids = "map serial_num (fst (construct (2 ^ 32 + 1) init))"
  have ids: "?ids = map (\<lambda>i. number init + of_nat i) [0..<2 ^ 32 + 1]"
    by (rule construct_serial)
  have "?ids ! 0 = 0"
    unfolding ids by (subst nth_map) (simp_all add: init_def)
  moreover have "?ids ! (2 ^ 32) = number init + of_nat (2 ^ 32)"
    unfolding ids by (subst nth_map) (simp_all del: of_nat_power of_nat_numeral)
  then have "?ids ! (2 ^ 32) = 0"
    by (simp add: init_def)
  moreover have "length ?ids = 2 ^ 32 + 1"
    unfolding ids by simp
  ultimately have "\<exists>i j. i < length ?ids \<and> j < length ?ids \<and> i \<noteq> j \<and> ?ids ! i = ?ids ! j"
    by (intro exI [of _ 0] exI [of _ "2 ^ 32"]) simp
  then show ?thesis
    by (simp only: distinct_conv_nth) blast
qed

text \<open>
  C10. The empty-list check comes before the argument checks: on a list with no element
  \<^verbatim>\<open>lookup\<close> never throws the invalid-argument error, and when the sentinel's lock has no
  exclusive holder it throws the empty-list error also for the index \<open>0\<close> and for a guard
  that already owns a lock.
\<close>

theorem lookup_empty_before_arguments:
  assumes "list_ptr s = Some a" "a < length (heap s)" "next (heap s ! a) = None"
  shows "fst (lookup n lock_arg s) \<noteq> Threw InvalidIndex \<and>
         (\<not> writer (mutex (heap s ! a)) \<and> (n = 0 \<or> owns lock_arg)
            \<longrightarrow> fst (lookup n lock_arg s) = Threw EmptyChain)"
proof (cases "writer (mutex (heap s ! a))")
  case True
  then show ?thesis
    using assms lookup_sentinel_held [of s a n lock_arg] by simp
next
  case False
  then show ?thesis
    using assms lookup_empty [of s a n lock_arg] by simp
qed

theorem lookup_empty_before_arguments_witness:
  "fst (lookup 0 no_lock (new_list init)) = Threw EmptyChain \<and>
   fst (lookup 0 no_lock (new_list init)) \<noteq> Threw InvalidIndex"
  using lookup_empty_before_arguments [of "new_list init" 0 0 no_lock]
  by (simp add: new_list_def new_node_def verbose_mutex_ctor_def init_def)

end
